theory Spec2Isabelle
  imports Main
begin

section \<open>error.ts: the AggregateError class\<close>

text \<open>
  \<^verbatim>\<open>
  export class AggregateError extends Error {
    public readonly errors: unknown[];
    public readonly name = 'AggregateError';
    constructor(errors: Iterable<unknown>, readonly message: string = '') {
      super(message);
      this.errors = [...errors];
    }
  }
  \<close>
  The two classes involved are named by \<open>class_name\<close>; \<open>extends_clause\<close> is the
  \<^verbatim>\<open>extends\<close> clause of each class declaration (the host class \<^verbatim>\<open>Error\<close> is a root here).
  An object remembers the class it was created for (\<^verbatim>\<open>new.target\<close>) in \<open>proto\<close>, and
  \<open>instanceof\<close> walks the chain of \<^verbatim>\<open>extends\<close> clauses upwards from there.
\<close>

datatype class_name = ErrorClass | AggregateErrorClass

fun extends_clause :: "class_name \<Rightarrow> class_name option" where
  "extends_clause AggregateErrorClass = Some ErrorClass"
| "extends_clause ErrorClass = None"

function prototype_chain :: "class_name \<Rightarrow> class_name list" where
  "prototype_chain cls =
     cls # (case extends_clause cls of None \<Rightarrow> [] | Some super_class \<Rightarrow> prototype_chain super_class)"
  by pat_completeness auto
termination
  by (relation "measure (\<lambda>cls. case cls of AggregateErrorClass \<Rightarrow> 1 | ErrorClass \<Rightarrow> 0)")
     (auto elim: extends_clause.elims)

text \<open>
  The host \<^verbatim>\<open>Error\<close> object, as far as this class uses it: the \<^verbatim>\<open>message\<close> that
  \<^verbatim>\<open>super(message)\<close> installs. \<open>AggregateError\<close> extends it by its own two fields. The
  type parameter \<open>'arr\<close> is the representation of the \<^verbatim>\<open>errors\<close> array: a list where
  arrays are plain values, an address where they live in a store.
\<close>

record JSError =
  proto :: class_name
  message :: string

record 'arr AggregateError = JSError +
  errors :: 'arr
  name :: string

definition instanceof :: "'m JSError_scheme \<Rightarrow> class_name \<Rightarrow> bool" where
  "instanceof obj cls = (cls \<in> set (prototype_chain (proto obj)))"

definition Error_ctor :: "class_name \<Rightarrow> string \<Rightarrow> JSError" where
  "Error_ctor new_target msg = \<lparr>proto = new_target, message = msg\<rparr>"

text \<open>
  The constructor, given the already materialised array \<open>spread_errors\<close> for
  \<^verbatim>\<open>[...errors]\<close>. \<open>message_arg = None\<close> is a call without the second argument, which
  takes the default \<^verbatim>\<open>''\<close>. The constructor works on \<^verbatim>\<open>this\<close> in steps: \<^verbatim>\<open>super(message)\<close>
  makes the object, then the field initialiser sets \<^verbatim>\<open>name\<close>, the parameter property
  assigns \<^verbatim>\<open>this.message\<close>, and the body assigns \<^verbatim>\<open>this.errors\<close>. \<open>construct_stages\<close>
  gives \<^verbatim>\<open>this\<close> at two moments: when \<^verbatim>\<open>super(message)\<close> has returned, and when the
  constructor returns; \<open>construct\<close> is the latter.
\<close>

definition construct_stages :: "'arr \<Rightarrow> string option \<Rightarrow> JSError \<times> 'arr AggregateError" where
  "construct_stages spread_errors message_arg =
     (let message_param = (case message_arg of None \<Rightarrow> '''' | Some m \<Rightarrow> m);
          this_after_super = Error_ctor AggregateErrorClass message_param;
          this = JSError.extend this_after_super
                   (AggregateError.fields spread_errors ''AggregateError'')
      in (this_after_super, this\<lparr>message := message_param\<rparr>))"

definition construct :: "'arr \<Rightarrow> string option \<Rightarrow> 'arr AggregateError" where
  "construct spread_errors message_arg = snd (construct_stages spread_errors message_arg)"

text \<open>
  Where arrays are values, as in the engine below, the iterable is an array, given by the
  list of its elements, and \<^verbatim>\<open>[...errors]\<close> is that list.
\<close>

definition AggregateError_ctor :: "'v list \<Rightarrow> string option \<Rightarrow> 'v list AggregateError" where
  "AggregateError_ctor errors_arg message_arg = construct errors_arg message_arg"

subsection \<open>Iterables and arrays in a store\<close>

text \<open>
  To speak about a source that is mutated after the construction, arrays are objects in a
  store: \<open>arrays h a\<close> is the content of the array at address \<open>a\<close>, and the addresses
  below \<open>allocated h\<close> are in use.
\<close>

record 'v heap =
  arrays :: "nat \<Rightarrow> 'v list"
  allocated :: nat

text \<open>
  The parameter is an \<^verbatim>\<open>Iterable<unknown>\<close>. An iterator is what its \<^verbatim>\<open>next()\<close> calls do, one
  after the other: yield a value, report the end, or throw. An iterable is an array of the
  store, or any other object, whose iterator may depend on the store at the time of the
  iteration. (An iterator that yields for ever is not represented.)
\<close>

datatype 'v iterator = Done | Yield 'v "'v iterator" | Raise 'v

datatype 'v iterable = ArrayRef nat | Iterable "'v heap \<Rightarrow> 'v iterator"

fun array_iterator :: "'v list \<Rightarrow> 'v iterator" where
  "array_iterator [] = Done"
| "array_iterator (x # xs) = Yield x (array_iterator xs)"

fun iterator_of :: "'v iterable \<Rightarrow> 'v heap \<Rightarrow> 'v iterator" where
  "iterator_of (ArrayRef a) h = array_iterator (arrays h a)"
| "iterator_of (Iterable it) h = it h"

text \<open>
  \<^verbatim>\<open>[...errors]\<close>: the values are collected until the iterator reports the end, and put
  into a new array. There is no \<^verbatim>\<open>try\<close> around it: what the iterator throws leaves the
  spread, and the constructor, as it is (\<open>Inl\<close>), and no array is made.
\<close>

fun collect :: "'v iterator \<Rightarrow> 'v list \<Rightarrow> 'v + 'v list" where
  "collect Done acc = Inr acc"
| "collect (Yield v it) acc = collect it (acc @ [v])"
| "collect (Raise e) acc = Inl e"

definition spread :: "'v iterable \<Rightarrow> 'v heap \<Rightarrow> ('v + nat) \<times> 'v heap" where
  "spread src h =
     (case collect (iterator_of src h) [] of
        Inl e \<Rightarrow> (Inl e, h)
      | Inr xs \<Rightarrow>
          (Inr (allocated h),
           h\<lparr>arrays := (arrays h)(allocated h := xs), allocated := Suc (allocated h)\<rparr>))"

definition AggregateError_new :: "'v iterable \<Rightarrow> string option \<Rightarrow> 'v heap
    \<Rightarrow> ('v + nat AggregateError) \<times> 'v heap" where
  "AggregateError_new errors_arg message_arg h =
     (case spread errors_arg h of
        (Inl e, h') \<Rightarrow> (Inl e, h')
      | (Inr copy, h') \<Rightarrow> (Inr (construct copy message_arg), h'))"


section \<open>cleanup.ts: runWithDefer\<close>

subsection \<open>Calls and what awaiting them gives\<close>

text \<open>
  A call of a user function (the handler or a clean-up callback) completes in one of four
  ways: it returns a plain value, it throws, or it returns a promise that is later
  fulfilled or rejected. \<^verbatim>\<open>await f()\<close> inside \<^verbatim>\<open>try\<close> does not tell the synchronous from
  the asynchronous way: it yields the value (\<open>Inr\<close>) or transfers control to the handler
  with the thrown or rejected value (\<open>Inl\<close>).
\<close>

datatype ('e, 'a) completion = Returns 'a | Throws 'e | Fulfills 'a | Rejects 'e

fun await :: "('e, 'a) completion \<Rightarrow> 'e + 'a" where
  "await (Returns v) = Inr v"
| "await (Throws e) = Inl e"
| "await (Fulfills v) = Inr v"
| "await (Rejects e) = Inl e"

text \<open>
  \<^verbatim>\<open>interface CleanupCallback { (): any }\<close>: a callback acts on the caller's world \<open>'s\<close> and
  completes. The world is the state once the awaited call has settled.

  Two things are left out. A promise that never settles: \<^verbatim>\<open>await\<close> would not come back and
  \<^verbatim>\<open>runWithDefer\<close> would have no outcome at all. And a callback that calls \<^verbatim>\<open>defer\<close> while
  the loop runs: the array \<^verbatim>\<open>onCleanup\<close> is not part of the world \<open>'s\<close>, so the callbacks
  here cannot reach it, and registration is confined to the handler's run.
\<close>

type_synonym ('s, 'e, 'b) CleanupCallback = "'s \<Rightarrow> ('e, 'b) completion \<times> 's"

text \<open>
  \<^verbatim>\<open>interface FunctionWithCleanup { (defer: DeferFunction): any }\<close>: the handler is given
  \<^verbatim>\<open>defer\<close> and nothing else of the engine. What it can do is: call \<^verbatim>\<open>defer\<close> with a
  callback and go on, change its world and go on, choose how to go on from its world, or
  complete.
\<close>

datatype ('s, 'e, 'a, 'b) FunctionWithCleanup =
    Complete "('e, 'a) completion"
  | CallDefer "('s, 'e, 'b) CleanupCallback" "('s, 'e, 'a, 'b) FunctionWithCleanup"
  | Update "'s \<Rightarrow> 's" "('s, 'e, 'a, 'b) FunctionWithCleanup"
  | Inspect "'s \<Rightarrow> ('s, 'e, 'a, 'b) FunctionWithCleanup"

text \<open>
  \<^verbatim>\<open>const defer = (deferredFn) => { onCleanup.unshift(deferredFn); };\<close>
  The arrow function has a block body without \<^verbatim>\<open>return\<close>: it returns \<^verbatim>\<open>undefined\<close>.
\<close>

definition defer_fn :: "('s, 'e, 'b) CleanupCallback \<Rightarrow> ('s, 'e, 'b) CleanupCallback list
    \<Rightarrow> ('e, unit) completion \<times> ('s, 'e, 'b) CleanupCallback list" where
  "defer_fn deferredFn onCleanup = (Returns (), deferredFn # onCleanup)"

text \<open>\<^verbatim>\<open>func(defer)\<close>: runs the handler against the array \<^verbatim>\<open>onCleanup\<close> and the world.\<close>

primrec call_func :: "('s, 'e, 'a, 'b) FunctionWithCleanup \<Rightarrow> ('s, 'e, 'b) CleanupCallback list \<Rightarrow> 's
    \<Rightarrow> ('e, 'a) completion \<times> ('s, 'e, 'b) CleanupCallback list \<times> 's" where
  "call_func (Complete c) onCleanup s = (c, onCleanup, s)"
| "call_func (CallDefer deferredFn k) onCleanup s =
     call_func k (snd (defer_fn deferredFn onCleanup)) s"
| "call_func (Update f k) onCleanup s = call_func k onCleanup (f s)"
| "call_func (Inspect g) onCleanup s = call_func (g s) onCleanup s"

text \<open>The callbacks the handler passes to \<^verbatim>\<open>defer\<close>, in the order of the calls.\<close>

primrec registered :: "('s, 'e, 'a, 'b) FunctionWithCleanup \<Rightarrow> 's \<Rightarrow> ('s, 'e, 'b) CleanupCallback list" where
  "registered (Complete c) s = []"
| "registered (CallDefer deferredFn k) s = deferredFn # registered k s"
| "registered (Update f k) s = registered k (f s)"
| "registered (Inspect g) s = registered (g s) s"

subsection \<open>The clean-up loop and the engine\<close>

text \<open>
  \<^verbatim>\<open>
  let errors = [];
  for (const onCleanupFn of onCleanup) {
    try { await onCleanupFn(); } catch (err) { errors.push(err); }
  }
  \<close>
\<close>

fun cleanup :: "('s, 'e, 'b) CleanupCallback list \<Rightarrow> 'e list \<Rightarrow> 's \<Rightarrow> 'e list \<times> 's" where
  "cleanup [] errs s = (errs, s)"
| "cleanup (onCleanupFn # rest) errs s =
     (case onCleanupFn s of (c, s') \<Rightarrow>
        (case await c of
           Inr _ \<Rightarrow> cleanup rest errs s'
         | Inl err \<Rightarrow> cleanup rest (errs @ [err]) s'))"

text \<open>
  What the returned promise rejects with: the value the handler failed with, handed on as
  it is, or the \<^verbatim>\<open>AggregateError\<close> made by this invocation.
\<close>

datatype 'e thrown = Original 'e | Aggregate "'e list AggregateError"

definition cleanup_message :: string where
  "cleanup_message = ''One or more exceptions caught while executing deferred clean-up functions''"

text \<open>
  \<^verbatim>\<open>
  const onCleanup = [];
  try { return await func(defer); }
  finally { <loop>; if (errors.length) { throw new AggregateError(errors, <message>); } }
  \<close>
  A \<^verbatim>\<open>throw\<close> in \<^verbatim>\<open>finally\<close> replaces the completion of the \<^verbatim>\<open>try\<close> block, be it a
  return or a throw. The result is the settlement of the returned promise (\<open>Inl\<close>: rejected)
  and the world at that moment.
\<close>

definition runWithDefer :: "('s, 'e, 'a, 'b) FunctionWithCleanup \<Rightarrow> 's \<Rightarrow> ('e thrown + 'a) \<times> 's" where
  "runWithDefer func s =
     (case call_func func [] s of (c, onCleanup, s1) \<Rightarrow>
        (case cleanup onCleanup [] s1 of (errs, s2) \<Rightarrow>
           if length errs \<noteq> 0
           then (Inl (Aggregate (AggregateError_ctor errs (Some cleanup_message))), s2)
           else (case await c of
                   Inr v \<Rightarrow> (Inr v, s2)
                 | Inl e \<Rightarrow> (Inl (Original e), s2))))"

subsection \<open>The same with a log of the calls\<close>

text \<open>
  To state which callbacks are called and in which order, the loop is also given with a
  log: one entry per call of a callback, holding the callback and how the call completed,
  in the order of the calls. The log is write-only.
\<close>

type_synonym ('s, 'e, 'b) call_log = "(('s, 'e, 'b) CleanupCallback \<times> ('e, 'b) completion) list"

fun cleanup_traced :: "('s, 'e, 'b) CleanupCallback list \<Rightarrow> 'e list \<Rightarrow> ('s, 'e, 'b) call_log \<Rightarrow> 's
    \<Rightarrow> 'e list \<times> ('s, 'e, 'b) call_log \<times> 's" where
  "cleanup_traced [] errs log s = (errs, log, s)"
| "cleanup_traced (onCleanupFn # rest) errs log s =
     (case onCleanupFn s of (c, s') \<Rightarrow>
        (case await c of
           Inr _ \<Rightarrow> cleanup_traced rest errs (log @ [(onCleanupFn, c)]) s'
         | Inl err \<Rightarrow> cleanup_traced rest (errs @ [err]) (log @ [(onCleanupFn, c)]) s'))"

definition runWithDefer_traced :: "('s, 'e, 'a, 'b) FunctionWithCleanup \<Rightarrow> 's
    \<Rightarrow> ('e thrown + 'a) \<times> ('s, 'e, 'b) call_log \<times> 's" where
  "runWithDefer_traced func s =
     (case call_func func [] s of (c, onCleanup, s1) \<Rightarrow>
        (case cleanup_traced onCleanup [] [] s1 of (errs, log, s2) \<Rightarrow>
           if length errs \<noteq> 0
           then (Inl (Aggregate (AggregateError_ctor errs (Some cleanup_message))), log, s2)
           else (case await c of
                   Inr v \<Rightarrow> (Inr v, log, s2)
                 | Inl e \<Rightarrow> (Inl (Original e), log, s2))))"

text \<open>The values the logged calls failed with, in the order of the calls.\<close>

fun failures :: "('s, 'e, 'b) call_log \<Rightarrow> 'e list" where
  "failures [] = []"
| "failures ((f, c) # log) = (case await c of Inl err \<Rightarrow> err # failures log | Inr _ \<Rightarrow> failures log)"

section \<open>Inputs taken from the tests\<close>

text \<open>
  The handlers of \<^verbatim>\<open>cleanup.test.ts\<close>: the world is the array \<^verbatim>\<open>got\<close>, a callback
  \<^verbatim>\<open>() => got.push(n)\<close> appends and returns the new length, \<^verbatim>\<open>() => { throw v }\<close> throws.
\<close>

datatype test_value = Num nat | Str string | Undefined

definition push :: "nat \<Rightarrow> (nat list, test_value, test_value) CleanupCallback" where
  "push n got = (Returns (Num (Suc (length got))), got @ [n])"

definition throwing :: "test_value \<Rightarrow> (nat list, test_value, test_value) CleanupCallback" where
  "throwing v got = (Throws v, got)"

text \<open>\<^verbatim>\<open>defer(() => got.push(1)); defer(() => got.push(2)); defer(() => got.push(3));\<close> and then \<open>c\<close>.\<close>

definition lifo_handler :: "(test_value, test_value) completion
    \<Rightarrow> (nat list, test_value, test_value, test_value) FunctionWithCleanup" where
  "lifo_handler c = CallDefer (push 1) (CallDefer (push 2) (CallDefer (push 3) (Complete c)))"

text \<open>The handler of the test "even if one throws".\<close>

definition one_throws_handler :: "(nat list, test_value, test_value, test_value) FunctionWithCleanup" where
  "one_throws_handler =
     CallDefer (push 1) (CallDefer (push 2) (CallDefer (throwing (Str ''yoink''))
       (CallDefer (push 3) (Complete (Fulfills Undefined)))))"

text \<open>\<^verbatim>\<open>defer(() => { throw 1 }); defer(() => { throw 2 }); defer(() => { throw 3 });\<close> and then \<open>c\<close>.\<close>

definition all_throw_handler :: "(test_value, test_value) completion
    \<Rightarrow> (nat list, test_value, test_value, test_value) FunctionWithCleanup" where
  "all_throw_handler c =
     CallDefer (throwing (Num 1)) (CallDefer (throwing (Num 2)) (CallDefer (throwing (Num 3))
       (Complete c)))"

text \<open>A handler that registers nothing, and one that registers the same callback twice.\<close>

definition bare_handler :: "(test_value, test_value) completion
    \<Rightarrow> (nat list, test_value, test_value, test_value) FunctionWithCleanup" where
  "bare_handler c = Complete c"

definition twice_handler :: "(nat list, test_value, test_value, test_value) FunctionWithCleanup" where
  "twice_handler =
     CallDefer (push 7) (CallDefer (push 8) (CallDefer (push 7) (Complete (Returns Undefined))))"

text \<open>A store with one array, at address 0.\<close>

definition test_heap :: "test_value list \<Rightarrow> test_value heap" where
  "test_heap xs = \<lparr>arrays = (\<lambda>a. [])(0 := xs), allocated = 1\<rparr>"



section \<open>Basic facts\<close>

lemma failures_append: "failures (xs @ ys) = failures xs @ failures ys"
  by (induction xs) (auto split: sum.splits)

lemma call_func_registered:
  "call_func func onCleanup s = (c, l, s1) \<Longrightarrow> l = rev (registered func s) @ onCleanup"
  by (induction func arbitrary: onCleanup s) (auto simp: defer_fn_def)

lemma cleanup_traced_erase:
  "cleanup_traced l errs log s = (errs', log', s') \<Longrightarrow> cleanup l errs s = (errs', s')"
  by (induction l arbitrary: errs log s) (auto split: prod.splits sum.splits)

lemma runWithDefer_traced_erase:
  "runWithDefer_traced func s = (out, log, s') \<Longrightarrow> runWithDefer func s = (out, s')"
  by (auto simp: runWithDefer_traced_def runWithDefer_def
      split: prod.splits sum.splits if_splits dest: cleanup_traced_erase)


lemma cleanup_traced_log:
  "cleanup_traced l errs log s = (errs', log', s') \<Longrightarrow>
     \<exists>new. log' = log @ new \<and> map fst new = l \<and> errs' = errs @ failures new
       \<and> s' = foldl (\<lambda>w f. snd (f w)) s l
       \<and> (\<forall>i<length l. snd (new ! i) = fst ((l ! i) (foldl (\<lambda>w f. snd (f w)) s (take i l))))"
proof (induction l arbitrary: errs log s)
  case Nil
  then show ?case by simp
next
  case (Cons f rest)
  let ?step = "\<lambda>w f. snd (f w)"
  obtain c s1 where f: "f s = (c, s1)" by (cases "f s")
  obtain errs1 where run: "cleanup_traced rest errs1 (log @ [(f, c)]) s1 = (errs', log', s')"
    and errs1: "errs1 = errs @ failures [(f, c)]"
    using Cons.prems f by (cases "await c") auto
  from Cons.IH[OF run] obtain new where
    new: "log' = (log @ [(f, c)]) @ new" "map fst new = rest" "errs' = errs1 @ failures new"
      "s' = foldl ?step s1 rest"
      "\<forall>i<length rest. snd (new ! i) = fst ((rest ! i) (foldl ?step s1 (take i rest)))"
    by (elim exE conjE)
  have nth: "snd (((f, c) # new) ! i) = fst (((f # rest) ! i) (foldl ?step s (take i (f # rest))))"
    if "i < length (f # rest)" for i
  proof (cases i)
    case 0
    then show ?thesis using f by simp
  next
    case (Suc j)
    with that new(5) f show ?thesis by simp
  qed
  have "log' = log @ ((f, c) # new) \<and> map fst ((f, c) # new) = f # rest
      \<and> errs' = errs @ failures ((f, c) # new) \<and> s' = foldl ?step s (f # rest)
      \<and> (\<forall>i<length (f # rest).
            snd (((f, c) # new) ! i) = fst (((f # rest) ! i) (foldl ?step s (take i (f # rest)))))"
    using new(1-4) errs1 f nth
    by (simp add: failures_append[of "[(f, c)]" new, simplified])
  then show ?case by (rule exI[of _ "(f, c) # new"])
qed

lemma failures_member:
  "(f, c) \<in> set log \<Longrightarrow> await c = Inl e \<Longrightarrow> e \<in> set (failures log)"
proof (induction log)
  case Nil
  then show ?case by simp
next
  case (Cons entry log)
  obtain g d where entry: "entry = (g, d)" by (cases entry)
  show ?case
  proof (cases "(f, c) = (g, d)")
    case True
    with Cons.prems entry show ?thesis by simp
  next
    case False
    with Cons entry have "e \<in> set (failures log)" by auto
    with entry show ?thesis by (cases "await d") simp_all
  qed
qed

lemma failures_source:
  "e \<in> set (failures log) \<Longrightarrow> \<exists>f c. (f, c) \<in> set log \<and> await c = Inl e"
proof (induction log)
  case Nil
  then show ?case by simp
next
  case (Cons entry log)
  obtain g d where entry: "entry = (g, d)" by (cases entry)
  show ?case
  proof (cases "await d")
    case (Inl x)
    show ?thesis
    proof (cases "e = x")
      case True
      with Inl entry have "(g, d) \<in> set (entry # log) \<and> await d = Inl e" by simp
      then show ?thesis by (intro exI)
    next
      case False
      with Cons.prems Inl entry have "e \<in> set (failures log)" by simp
      from Cons.IH[OF this] obtain f c where "(f, c) \<in> set log" "await c = Inl e"
        by (elim exE conjE)
      then have "(f, c) \<in> set (entry # log) \<and> await c = Inl e" by simp
      then show ?thesis by (intro exI)
    qed
  next
    case (Inr v)
    with Cons.prems entry have "e \<in> set (failures log)" by simp
    from Cons.IH[OF this] obtain f c where "(f, c) \<in> set log" "await c = Inl e"
      by (elim exE conjE)
    then have "(f, c) \<in> set (entry # log) \<and> await c = Inl e" by simp
    then show ?thesis by (intro exI)
  qed
qed

lemma runWithDefer_traced_loop:
  assumes "runWithDefer_traced func s = (out, log, s')" and "call_func func [] s = (c, onCleanup, s1)"
  shows "cleanup_traced onCleanup [] [] s1 = (failures log, log, s')"
proof -
  obtain errs lg s2 where cl: "cleanup_traced onCleanup [] [] s1 = (errs, lg, s2)"
    by (cases "cleanup_traced onCleanup [] [] s1")
  from cleanup_traced_log[OF cl] have "errs = failures lg" by auto
  moreover from assms cl have "log = lg \<and> s' = s2"
    by (auto simp: runWithDefer_traced_def split: if_splits sum.splits)
  ultimately show ?thesis using cl by simp
qed

lemma runWithDefer_traced_calls:
  assumes "runWithDefer_traced func s = (out, log, s')"
  shows "map fst log = rev (registered func s)"
proof -
  obtain c onCleanup s1 where cf: "call_func func [] s = (c, onCleanup, s1)"
    by (cases "call_func func [] s")
  from cleanup_traced_log[OF runWithDefer_traced_loop[OF assms cf]] have "map fst log = onCleanup"
    by auto
  with call_func_registered[OF cf] show ?thesis by simp
qed

lemma runWithDefer_traced_outcome:
  assumes "runWithDefer_traced func s = (out, log, s')" and "call_func func [] s = (c, onCleanup, s1)"
  shows "out = (if failures log \<noteq> []
                then Inl (Aggregate (AggregateError_ctor (failures log) (Some cleanup_message)))
                else (case await c of Inr v \<Rightarrow> Inr v | Inl e \<Rightarrow> Inl (Original e)))"
  using assms runWithDefer_traced_loop[OF assms]
  by (auto simp: runWithDefer_traced_def split: if_splits sum.splits)

lemma construct_fields:
  "proto (construct arr message_arg) = AggregateErrorClass"
  "message (construct arr message_arg) = (case message_arg of None \<Rightarrow> '''' | Some m \<Rightarrow> m)"
  "errors (construct arr message_arg) = arr"
  "name (construct arr message_arg) = ''AggregateError''"
  by (simp_all add: construct_def construct_stages_def Error_ctor_def JSError.defs
      AggregateError.defs Let_def)

lemma collect_array_iterator: "collect (array_iterator xs) acc = Inr (acc @ xs)"
  by (induction xs arbitrary: acc) simp_all

lemma runWithDefer_Aggregate:
  "runWithDefer func s = (Inl (Aggregate agg), s') \<Longrightarrow>
     \<exists>errs. agg = AggregateError_ctor errs (Some cleanup_message)"
  by (auto simp: runWithDefer_def split: prod.splits if_splits sum.splits)

section \<open>The claims\<close>

text \<open>
  C1. Whenever a call of a registered clean-up callback fails, the promise returned by
  \<^verbatim>\<open>runWithDefer\<close> is rejected with an \<^verbatim>\<open>AggregateError\<close> made by this invocation. Its
  \<^verbatim>\<open>errors\<close> are exactly the values the failing calls failed with, in the order of the calls,
  which is the reverse of the order of registration. Nothing is assumed about the handler:
  it may have failed as well, and its own failure is not among the \<^verbatim>\<open>errors\<close>, which come
  from the log of the callback calls alone.
\<close>

theorem cleanup_failures_give_AggregateError:
  assumes "runWithDefer_traced func s = (out, log, s')"
    and "(f, c) \<in> set log" and "await c = Inl e"
  shows "runWithDefer func s =
           (Inl (Aggregate (AggregateError_ctor (failures log) (Some cleanup_message))), s')
         \<and> errors (AggregateError_ctor (failures log) (Some cleanup_message)) = failures log
         \<and> e \<in> set (failures log)
         \<and> (\<forall>x\<in>set (failures log). \<exists>g d. (g, d) \<in> set log \<and> await d = Inl x)
         \<and> map fst log = rev (registered func s)"
proof -
  obtain c0 onCleanup s1 where cf: "call_func func [] s = (c0, onCleanup, s1)"
    by (cases "call_func func [] s")
  from failures_member[OF assms(2,3)] have mem: "e \<in> set (failures log)" .
  then have "failures log \<noteq> []" by auto
  with runWithDefer_traced_outcome[OF assms(1) cf]
  have "out = Inl (Aggregate (AggregateError_ctor (failures log) (Some cleanup_message)))" by simp
  with runWithDefer_traced_erase[OF assms(1)]
  have "runWithDefer func s =
      (Inl (Aggregate (AggregateError_ctor (failures log) (Some cleanup_message))), s')" by simp
  moreover have "errors (AggregateError_ctor (failures log) (Some cleanup_message)) = failures log"
    by (simp add: AggregateError_ctor_def construct_fields)
  moreover have "\<forall>x\<in>set (failures log). \<exists>g d. (g, d) \<in> set log \<and> await d = Inl x"
    by (intro ballI, rule failures_source)
  ultimately show ?thesis using mem runWithDefer_traced_calls[OF assms(1)] by simp
qed

text \<open>
  The test with three throwing callbacks, here with a handler that is rejected as well:
  the errors are 3, 2, 1 and the handler's \<^verbatim>\<open>'yoink'\<close> is not among them.
\<close>

theorem cleanup_failures_give_AggregateError_witness:
  "runWithDefer_traced (all_throw_handler (Rejects (Str ''yoink''))) [] =
     (Inl (Aggregate (AggregateError_ctor [Num 3, Num 2, Num 1] (Some cleanup_message))),
      [(throwing (Num 3), Throws (Num 3)), (throwing (Num 2), Throws (Num 2)),
       (throwing (Num 1), Throws (Num 1))], [])
   \<and> (throwing (Num 2), Throws (Num 2)) \<in> set [(throwing (Num 3), Throws (Num 3)),
       (throwing (Num 2), Throws (Num 2)), (throwing (Num 1), Throws (Num 1))]
   \<and> await (Throws (Num 2) :: (test_value, test_value) completion) = Inl (Num 2)
   \<and> runWithDefer (all_throw_handler (Rejects (Str ''yoink''))) [] =
       (Inl (Aggregate (AggregateError_ctor [Num 3, Num 2, Num 1] (Some cleanup_message))), [])
   \<and> errors (AggregateError_ctor [Num 3, Num 2, Num 1] (Some cleanup_message)) = [Num 3, Num 2, Num 1]"
proof -
  let ?log = "[(throwing (Num 3), Throws (Num 3)), (throwing (Num 2), Throws (Num 2)),
       (throwing (Num 1), Throws (Num 1))]"
  have run: "runWithDefer_traced (all_throw_handler (Rejects (Str ''yoink''))) [] =
     (Inl (Aggregate (AggregateError_ctor [Num 3, Num 2, Num 1] (Some cleanup_message))), ?log, [])"
    by (simp add: all_throw_handler_def runWithDefer_traced_def defer_fn_def throwing_def)
  have mem: "(throwing (Num 2), Throws (Num 2)) \<in> set ?log" by simp
  have aw: "await (Throws (Num 2) :: (test_value, test_value) completion) = Inl (Num 2)" by simp
  from cleanup_failures_give_AggregateError[OF run mem aw] run mem aw
  show ?thesis by simp
qed

text \<open>
  C2. The callbacks registered during the handler's run, in the order a1, ..., aN, are
  called in the order aN, ..., a1: \<^verbatim>\<open>defer\<close> puts each new callback at the front of
  \<^verbatim>\<open>onCleanup\<close>, so the array the handler leaves is the reverse of the registrations, and the
  loop calls the callbacks of the array in array order.
\<close>

theorem callbacks_run_in_reverse_registration_order:
  assumes "runWithDefer_traced func s = (out, log, s')"
    and "call_func func [] s = (c, onCleanup, s1)"
  shows "snd (defer_fn deferredFn l) = deferredFn # l
         \<and> onCleanup = rev (registered func s)
         \<and> map fst log = onCleanup
         \<and> map fst log = rev (registered func s)
         \<and> runWithDefer func s = (out, foldl (\<lambda>w f. snd (f w)) s1 (rev (registered func s)))"
proof -
  from cleanup_traced_log[OF runWithDefer_traced_loop[OF assms]]
  have "map fst log = onCleanup" "s' = foldl (\<lambda>w f. snd (f w)) s1 onCleanup"
    by auto
  with call_func_registered[OF assms(2)] runWithDefer_traced_erase[OF assms(1)]
  show ?thesis by (simp add: defer_fn_def)
qed

text \<open>The test "in LIFO order": registering 1, 2, 3 leaves \<^verbatim>\<open>got\<close> as 3, 2, 1.\<close>

theorem callbacks_run_in_reverse_registration_order_witness:
  "runWithDefer_traced (lifo_handler (Returns Undefined)) [] =
     (Inr Undefined,
      [(push 3, Returns (Num 1)), (push 2, Returns (Num 2)), (push 1, Returns (Num 3))], [3, 2, 1])
   \<and> call_func (lifo_handler (Returns Undefined)) [] [] =
       (Returns Undefined, [push 3, push 2, push 1], [])
   \<and> registered (lifo_handler (Returns Undefined)) [] = [push 1, push 2, push 3]
   \<and> map fst [(push 3, Returns (Num 1)), (push 2, Returns (Num 2)), (push 1, Returns (Num 3))] =
       rev (registered (lifo_handler (Returns Undefined)) [])
   \<and> runWithDefer (lifo_handler (Returns Undefined)) [] = (Inr Undefined, [3, 2, 1])"
proof -
  have run: "runWithDefer_traced (lifo_handler (Returns Undefined)) [] =
     (Inr Undefined,
      [(push 3, Returns (Num 1)), (push 2, Returns (Num 2)), (push 1, Returns (Num 3))], [3, 2, 1])"
    by (simp add: lifo_handler_def runWithDefer_traced_def defer_fn_def push_def)
  have cf: "call_func (lifo_handler (Returns Undefined)) [] [] =
       (Returns Undefined, [push 3, push 2, push 1], [])"
    by (simp add: lifo_handler_def defer_fn_def)
  have reg: "registered (lifo_handler (Returns Undefined)) [] = [push 1, push 2, push 3]"
    by (simp add: lifo_handler_def)
  from callbacks_run_in_reverse_registration_order[OF run cf,
      where deferredFn = "push 1" and l = "[]"] run cf reg
  show ?thesis by (simp add: push_def)
qed

text \<open>
  C3. When the handler fails with \<open>e\<close> (thrown or rejected) and no call of a clean-up
  callback fails, the returned promise is rejected with \<open>e\<close> itself. In particular this is
  so when nothing was registered; then the world is the one the handler left.
\<close>

theorem handler_failure_propagates_unchanged:
  assumes "call_func func [] s = (c, onCleanup, s1)" and "await c = Inl e"
    and "runWithDefer_traced func s = (out, log, s')"
  shows "(failures log = [] \<longrightarrow> runWithDefer func s = (Inl (Original e), s'))
         \<and> (registered func s = [] \<longrightarrow> runWithDefer func s = (Inl (Original e), s1))"
proof -
  have a: "runWithDefer func s = (Inl (Original e), s')" if "failures log = []"
    using runWithDefer_traced_outcome[OF assms(3,1)] runWithDefer_traced_erase[OF assms(3)]
      that assms(2) by simp
  have b: "runWithDefer func s = (Inl (Original e), s1)" if "registered func s = []"
  proof -
    from call_func_registered[OF assms(1)] that have "onCleanup = []" by simp
    with runWithDefer_traced_loop[OF assms(3,1)] have "log = [] \<and> s' = s1" by simp
    with a show ?thesis by simp
  qed
  from a b show ?thesis by blast
qed

text \<open>A throwing handler with three succeeding callbacks, and a rejected handler with none.\<close>

theorem handler_failure_propagates_unchanged_witness:
  "call_func (lifo_handler (Throws (Str ''yoink''))) [] [] =
     (Throws (Str ''yoink''), [push 3, push 2, push 1], [])
   \<and> await (Throws (Str ''yoink'') :: (test_value, test_value) completion) = Inl (Str ''yoink'')
   \<and> runWithDefer_traced (lifo_handler (Throws (Str ''yoink''))) [] =
       (Inl (Original (Str ''yoink'')),
        [(push 3, Returns (Num 1)), (push 2, Returns (Num 2)), (push 1, Returns (Num 3))], [3, 2, 1])
   \<and> failures [(push 3, Returns (Num 1)), (push 2, Returns (Num 2)), (push 1, Returns (Num 3))] = []
   \<and> runWithDefer (lifo_handler (Throws (Str ''yoink''))) [] =
       (Inl (Original (Str ''yoink'')), [3, 2, 1])
   \<and> registered (bare_handler (Rejects (Str ''yoink''))) [5] = []
   \<and> runWithDefer (bare_handler (Rejects (Str ''yoink''))) [5] = (Inl (Original (Str ''yoink'')), [5])"
proof -
  let ?log = "[(push 3, Returns (Num 1)), (push 2, Returns (Num 2)), (push 1, Returns (Num 3))]"
  have cf: "call_func (lifo_handler (Throws (Str ''yoink''))) [] [] =
     (Throws (Str ''yoink''), [push 3, push 2, push 1], [])"
    by (simp add: lifo_handler_def defer_fn_def)
  have aw: "await (Throws (Str ''yoink'') :: (test_value, test_value) completion) = Inl (Str ''yoink'')"
    by simp
  have run: "runWithDefer_traced (lifo_handler (Throws (Str ''yoink''))) [] =
       (Inl (Original (Str ''yoink'')), ?log, [3, 2, 1])"
    by (simp add: lifo_handler_def runWithDefer_traced_def defer_fn_def push_def)
  have none: "failures ?log = []" by simp
  have cf0: "call_func (bare_handler (Rejects (Str ''yoink''))) [] [5] =
     (Rejects (Str ''yoink''), [], [5])"
    by (simp add: bare_handler_def)
  have aw0: "await (Rejects (Str ''yoink'') :: (test_value, test_value) completion) = Inl (Str ''yoink'')"
    by simp
  have run0: "runWithDefer_traced (bare_handler (Rejects (Str ''yoink''))) [5] =
       (Inl (Original (Str ''yoink'')), [], [5])"
    by (simp add: bare_handler_def runWithDefer_traced_def)
  have reg0: "registered (bare_handler (Rejects (Str ''yoink''))) [5] = []"
    by (simp add: bare_handler_def)
  from handler_failure_propagates_unchanged[OF cf aw run]
    handler_failure_propagates_unchanged[OF cf0 aw0 run0] cf aw run none reg0
  show ?thesis by simp
qed

text \<open>
  C4. When the handler produces the value \<open>v\<close>, by returning it or through a promise
  fulfilled with it, and no call of a clean-up callback fails, the returned promise is
  fulfilled with \<open>v\<close> itself. In particular this is so when nothing was registered.
\<close>

theorem handler_result_returned_unchanged:
  assumes "call_func func [] s = (c, onCleanup, s1)" and "c = Returns v \<or> c = Fulfills v"
    and "runWithDefer_traced func s = (out, log, s')"
  shows "(failures log = [] \<longrightarrow> runWithDefer func s = (Inr v, s'))
         \<and> (registered func s = [] \<longrightarrow> runWithDefer func s = (Inr v, s1))"
proof -
  from assms(2) have aw: "await c = Inr v" by auto
  have a: "runWithDefer func s = (Inr v, s')" if "failures log = []"
    using runWithDefer_traced_outcome[OF assms(3,1)] runWithDefer_traced_erase[OF assms(3)]
      that aw by simp
  have b: "runWithDefer func s = (Inr v, s1)" if "registered func s = []"
  proof -
    from call_func_registered[OF assms(1)] that have "onCleanup = []" by simp
    with runWithDefer_traced_loop[OF assms(3,1)] have "log = [] \<and> s' = s1" by simp
    with a show ?thesis by simp
  qed
  from a b show ?thesis by blast
qed

text \<open>An asynchronous handler with three succeeding callbacks, and a synchronous one with none.\<close>

theorem handler_result_returned_unchanged_witness:
  "call_func (lifo_handler (Fulfills (Str ''result''))) [] [] =
     (Fulfills (Str ''result''), [push 3, push 2, push 1], [])
   \<and> runWithDefer_traced (lifo_handler (Fulfills (Str ''result''))) [] =
       (Inr (Str ''result''),
        [(push 3, Returns (Num 1)), (push 2, Returns (Num 2)), (push 1, Returns (Num 3))], [3, 2, 1])
   \<and> failures [(push 3, Returns (Num 1)), (push 2, Returns (Num 2)), (push 1, Returns (Num 3))] = []
   \<and> runWithDefer (lifo_handler (Fulfills (Str ''result''))) [] = (Inr (Str ''result''), [3, 2, 1])
   \<and> registered (bare_handler (Returns (Str ''result''))) [5] = []
   \<and> runWithDefer (bare_handler (Returns (Str ''result''))) [5] = (Inr (Str ''result''), [5])"
proof -
  let ?log = "[(push 3, Returns (Num 1)), (push 2, Returns (Num 2)), (push 1, Returns (Num 3))]"
  have cf: "call_func (lifo_handler (Fulfills (Str ''result''))) [] [] =
     (Fulfills (Str ''result''), [push 3, push 2, push 1], [])"
    by (simp add: lifo_handler_def defer_fn_def)
  have c: "Fulfills (Str ''result'') = Returns (Str ''result'')
      \<or> (Fulfills (Str ''result'') :: (test_value, test_value) completion) = Fulfills (Str ''result'')"
    by simp
  have run: "runWithDefer_traced (lifo_handler (Fulfills (Str ''result''))) [] =
       (Inr (Str ''result''), ?log, [3, 2, 1])"
    by (simp add: lifo_handler_def runWithDefer_traced_def defer_fn_def push_def)
  have none: "failures ?log = []" by simp
  have cf0: "call_func (bare_handler (Returns (Str ''result''))) [] [5] =
     (Returns (Str ''result''), [], [5])"
    by (simp add: bare_handler_def)
  have c0: "Returns (Str ''result'') = Returns (Str ''result'')
      \<or> (Returns (Str ''result'') :: (test_value, test_value) completion) = Fulfills (Str ''result'')"
    by simp
  have run0: "runWithDefer_traced (bare_handler (Returns (Str ''result''))) [5] =
       (Inr (Str ''result''), [], [5])"
    by (simp add: bare_handler_def runWithDefer_traced_def)
  have reg0: "registered (bare_handler (Returns (Str ''result''))) [5] = []"
    by (simp add: bare_handler_def)
  from handler_result_returned_unchanged[OF cf c run]
    handler_result_returned_unchanged[OF cf0 c0 run0] cf run none reg0
  show ?thesis by simp
qed

text \<open>
  C5. Every callback of the array the handler leaves is called, once and in array order,
  whatever the calls before it did: the call number \<open>i\<close> happens in the world that the
  \<open>i\<close> callbacks before it have produced, its completion is the one logged, the world at
  the end is the world after all of them, and the errors the loop collects are the values
  the failing calls failed with, in the order of the calls.
\<close>

theorem failing_callback_does_not_stop_the_loop:
  assumes "call_func func [] s = (c, onCleanup, s1)"
    and "runWithDefer_traced func s = (out, log, s')"
  shows "runWithDefer func s = (out, s')
         \<and> map fst log = onCleanup
         \<and> cleanup onCleanup [] s1 = (failures log, s')
         \<and> s' = foldl (\<lambda>w f. snd (f w)) s1 onCleanup
         \<and> (\<forall>i<length onCleanup.
               snd (log ! i) = fst ((onCleanup ! i) (foldl (\<lambda>w f. snd (f w)) s1 (take i onCleanup))))
         \<and> (\<forall>f d e. (f, d) \<in> set log \<and> await d = Inl e \<longrightarrow> e \<in> set (failures log))"
proof -
  note loop = runWithDefer_traced_loop[OF assms(2,1)]
  from cleanup_traced_log[OF loop] have
    "map fst log = onCleanup" "s' = foldl (\<lambda>w f. snd (f w)) s1 onCleanup"
    "\<forall>i<length onCleanup.
       snd (log ! i) = fst ((onCleanup ! i) (foldl (\<lambda>w f. snd (f w)) s1 (take i onCleanup)))"
    by auto
  moreover from cleanup_traced_erase[OF loop] have "cleanup onCleanup [] s1 = (failures log, s')" .
  moreover have "\<forall>f d e. (f, d) \<in> set log \<and> await d = Inl e \<longrightarrow> e \<in> set (failures log)"
    by (intro allI impI, elim conjE, rule failures_member)
  ultimately show ?thesis using runWithDefer_traced_erase[OF assms(2)] by simp
qed

text \<open>
  The test "even if one throws": the callback executed second throws, the callbacks
  executed third and fourth still push 2 and 1.
\<close>

theorem failing_callback_does_not_stop_the_loop_witness:
  "call_func one_throws_handler [] [] =
     (Fulfills Undefined, [push 3, throwing (Str ''yoink''), push 2, push 1], [])
   \<and> runWithDefer_traced one_throws_handler [] =
       (Inl (Aggregate (AggregateError_ctor [Str ''yoink''] (Some cleanup_message))),
        [(push 3, Returns (Num 1)), (throwing (Str ''yoink''), Throws (Str ''yoink'')),
         (push 2, Returns (Num 2)), (push 1, Returns (Num 3))], [3, 2, 1])
   \<and> runWithDefer one_throws_handler [] =
       (Inl (Aggregate (AggregateError_ctor [Str ''yoink''] (Some cleanup_message))), [3, 2, 1])
   \<and> cleanup [push 3, throwing (Str ''yoink''), push 2, push 1] [] [] = ([Str ''yoink''], [3, 2, 1])
   \<and> foldl (\<lambda>w f. snd (f w)) [] [push 3, throwing (Str ''yoink''), push 2, push 1] = [3, 2, 1]
   \<and> snd ([(push 3, Returns (Num 1)), (throwing (Str ''yoink''), Throws (Str ''yoink'')),
         (push 2, Returns (Num 2)), (push 1, Returns (Num 3))] ! 2) = Returns (Num 2)"
proof -
  let ?log = "[(push 3, Returns (Num 1)), (throwing (Str ''yoink''), Throws (Str ''yoink'')),
         (push 2, Returns (Num 2)), (push 1, Returns (Num 3))]"
  have cf: "call_func one_throws_handler [] [] =
     (Fulfills Undefined, [push 3, throwing (Str ''yoink''), push 2, push 1], [])"
    by (simp add: one_throws_handler_def defer_fn_def)
  have run: "runWithDefer_traced one_throws_handler [] =
       (Inl (Aggregate (AggregateError_ctor [Str ''yoink''] (Some cleanup_message))), ?log, [3, 2, 1])"
    by (simp add: one_throws_handler_def runWithDefer_traced_def defer_fn_def push_def throwing_def)
  have fl: "failures ?log = [Str ''yoink'']" by simp
  from failing_callback_does_not_stop_the_loop[OF cf run] cf run fl
  show ?thesis by simp
qed




text \<open>
  C8. \<^verbatim>\<open>AggregateError\<close> extends \<^verbatim>\<open>Error\<close>. When \<^verbatim>\<open>super(message)\<close> has returned,
  \<^verbatim>\<open>this\<close> is an instance of \<^verbatim>\<open>Error\<close> and already has the message passed to the
  constructor, or the empty string when none was passed; the later steps leave the
  \<^verbatim>\<open>Error\<close> part of \<^verbatim>\<open>this\<close> as \<^verbatim>\<open>super(message)\<close> has made it. So every object the
  constructor yields is an instance of \<^verbatim>\<open>Error\<close> and of \<^verbatim>\<open>AggregateError\<close>, also the one
  \<^verbatim>\<open>runWithDefer\<close> rejects with and the one made from an iterable in the store.
\<close>

theorem AggregateError_instanceof_Error:
  "extends_clause AggregateErrorClass = Some ErrorClass
   \<and> message (fst (construct_stages arr message_arg)) =
       (case message_arg of None \<Rightarrow> '''' | Some m \<Rightarrow> m)
   \<and> instanceof (fst (construct_stages arr message_arg)) ErrorClass
   \<and> JSError.truncate (construct arr message_arg) = fst (construct_stages arr message_arg)
   \<and> instanceof (construct arr message_arg) ErrorClass
   \<and> instanceof (construct arr message_arg) AggregateErrorClass
   \<and> (runWithDefer func s = (Inl (Aggregate agg), s') \<longrightarrow>
        instanceof agg ErrorClass
        \<and> JSError.truncate agg = fst (construct_stages (errors agg) (Some cleanup_message)))
   \<and> (AggregateError_new src message_arg h = (Inr obj, h') \<longrightarrow>
        instanceof obj ErrorClass
        \<and> JSError.truncate obj = fst (construct_stages (errors obj) message_arg))"
proof -
  have chain: "prototype_chain AggregateErrorClass = [AggregateErrorClass, ErrorClass]"
    by simp
  have stage: "fst (construct_stages arr msg) =
      \<lparr>proto = AggregateErrorClass,
       message = (case msg of None \<Rightarrow> '''' | Some m \<Rightarrow> m)\<rparr>" for arr :: 'x and msg
    by (simp add: construct_stages_def Error_ctor_def Let_def)
  have inst: "instanceof (construct arr msg) ErrorClass
      \<and> instanceof (construct arr msg) AggregateErrorClass" for arr :: 'x and msg
    by (simp add: instanceof_def construct_fields chain del: prototype_chain.simps)
  have trunc: "JSError.truncate (construct arr msg) = fst (construct_stages arr msg)"
    for arr :: 'x and msg
    by (simp add: JSError.truncate_def construct_fields stage)
  have engine: "instanceof agg ErrorClass
        \<and> JSError.truncate agg = fst (construct_stages (errors agg) (Some cleanup_message))"
    if "runWithDefer func s = (Inl (Aggregate agg), s')"
  proof -
    from runWithDefer_Aggregate[OF that] obtain errs where
      "agg = construct errs (Some cleanup_message)"
      by (auto simp: AggregateError_ctor_def)
    then show ?thesis using inst[of errs "Some cleanup_message"] trunc[of errs "Some cleanup_message"]
      by (simp add: stage construct_fields)
  qed
  have store: "instanceof obj ErrorClass
        \<and> JSError.truncate obj = fst (construct_stages (errors obj) message_arg)"
    if "AggregateError_new src message_arg h = (Inr obj, h')"
  proof -
    from that obtain copy where "obj = construct copy message_arg"
      by (auto simp: AggregateError_new_def spread_def split: sum.splits prod.splits)
    then show ?thesis using inst[of copy message_arg] trunc[of copy message_arg]
      by (simp add: stage construct_fields)
  qed
  have "instanceof (fst (construct_stages arr message_arg)) ErrorClass"
    by (simp add: stage instanceof_def chain del: prototype_chain.simps)
  with stage[of arr message_arg] inst[of arr message_arg] trunc[of arr message_arg] engine store
  show ?thesis
    by (intro conjI impI) simp_all
qed

text \<open>The run of the test "even if one throws", and the array 1 with a message.\<close>

theorem AggregateError_instanceof_Error_witness:
  "runWithDefer one_throws_handler [] =
     (Inl (Aggregate (AggregateError_ctor [Str ''yoink''] (Some cleanup_message))), [3, 2, 1])
   \<and> instanceof (AggregateError_ctor [Str ''yoink''] (Some cleanup_message)) ErrorClass
   \<and> JSError.truncate (AggregateError_ctor [Str ''yoink''] (Some cleanup_message)) =
       fst (construct_stages (errors (AggregateError_ctor [Str ''yoink''] (Some cleanup_message)))
         (Some cleanup_message))
   \<and> message (fst (construct_stages [Str ''yoink''] (Some ''No good Johnny!''))) = ''No good Johnny!''
   \<and> AggregateError_new (ArrayRef 0) (Some ''No good Johnny!'') (test_heap [Num 1]) =
       (Inr (construct 1 (Some ''No good Johnny!'')), snd (spread (ArrayRef 0) (test_heap [Num 1])))
   \<and> instanceof (construct (1::nat) (Some ''No good Johnny!'')) ErrorClass
   \<and> JSError.truncate (construct (1::nat) (Some ''No good Johnny!'')) =
       fst (construct_stages (errors (construct (1::nat) (Some ''No good Johnny!'')))
         (Some ''No good Johnny!''))"
proof -
  have run: "runWithDefer one_throws_handler [] =
     (Inl (Aggregate (AggregateError_ctor [Str ''yoink''] (Some cleanup_message))), [3, 2, 1])"
    by (simp add: one_throws_handler_def runWithDefer_def defer_fn_def push_def throwing_def)
  have new: "AggregateError_new (ArrayRef 0) (Some ''No good Johnny!'') (test_heap [Num 1]) =
       (Inr (construct 1 (Some ''No good Johnny!'')), snd (spread (ArrayRef 0) (test_heap [Num 1])))"
    by (simp add: AggregateError_new_def spread_def test_heap_def collect_array_iterator)
  note at_inputs = AggregateError_instanceof_Error[where func = one_throws_handler and s = "[]"
      and agg = "AggregateError_ctor [Str ''yoink''] (Some cleanup_message)" and s' = "[3, 2, 1]"
      and src = "ArrayRef 0" and message_arg = "Some ''No good Johnny!''"
      and h = "test_heap [Num 1]" and obj = "construct 1 (Some ''No good Johnny!'')"
      and h' = "snd (spread (ArrayRef 0) (test_heap [Num 1]))"
      and arr = "[Str ''yoink'']"]
  from at_inputs run new show ?thesis
    by simp
qed

text \<open>
  C9. Whenever a call of a clean-up callback fails, the \<^verbatim>\<open>AggregateError\<close> the returned
  promise is rejected with has the fixed message of the source.
\<close>

theorem AggregateError_message_fixed:
  assumes "runWithDefer_traced func s = (out, log, s')"
    and "(f, c) \<in> set log" and "await c = Inl e"
  shows "\<exists>agg. runWithDefer func s = (Inl (Aggregate agg), s')
           \<and> message agg =
               ''One or more exceptions caught while executing deferred clean-up functions''"
proof -
  obtain c0 onCleanup s1 where cf: "call_func func [] s = (c0, onCleanup, s1)"
    by (cases "call_func func [] s")
  from failures_member[OF assms(2,3)] have "failures log \<noteq> []" by auto
  with runWithDefer_traced_outcome[OF assms(1) cf] runWithDefer_traced_erase[OF assms(1)]
  have "runWithDefer func s =
      (Inl (Aggregate (AggregateError_ctor (failures log) (Some cleanup_message))), s')" by simp
  moreover have "message (AggregateError_ctor (failures log) (Some cleanup_message)) =
      ''One or more exceptions caught while executing deferred clean-up functions''"
    by (simp add: AggregateError_ctor_def construct_fields cleanup_message_def)
  ultimately show ?thesis by blast
qed

text \<open>The run of the test "even if one throws" again.\<close>

theorem AggregateError_message_fixed_witness:
  "runWithDefer_traced one_throws_handler [] =
       (Inl (Aggregate (AggregateError_ctor [Str ''yoink''] (Some cleanup_message))),
        [(push 3, Returns (Num 1)), (throwing (Str ''yoink''), Throws (Str ''yoink'')),
         (push 2, Returns (Num 2)), (push 1, Returns (Num 3))], [3, 2, 1])
   \<and> (throwing (Str ''yoink''), Throws (Str ''yoink'')) \<in> set
        [(push 3, Returns (Num 1)), (throwing (Str ''yoink''), Throws (Str ''yoink'')),
         (push 2, Returns (Num 2)), (push 1, Returns (Num 3))]
   \<and> await (Throws (Str ''yoink'') :: (test_value, test_value) completion) = Inl (Str ''yoink'')
   \<and> (\<exists>agg. runWithDefer one_throws_handler [] = (Inl (Aggregate agg), [3, 2, 1])
         \<and> message agg =
             ''One or more exceptions caught while executing deferred clean-up functions'')"
proof -
  let ?log = "[(push 3, Returns (Num 1)), (throwing (Str ''yoink''), Throws (Str ''yoink'')),
         (push 2, Returns (Num 2)), (push 1, Returns (Num 3))]"
  have run: "runWithDefer_traced one_throws_handler [] =
       (Inl (Aggregate (AggregateError_ctor [Str ''yoink''] (Some cleanup_message))), ?log, [3, 2, 1])"
    by (simp add: one_throws_handler_def runWithDefer_traced_def defer_fn_def push_def throwing_def)
  have mem: "(throwing (Str ''yoink''), Throws (Str ''yoink'')) \<in> set ?log" by simp
  have aw: "await (Throws (Str ''yoink'') :: (test_value, test_value) completion) = Inl (Str ''yoink'')"
    by simp
  from AggregateError_message_fixed[OF run mem aw] run mem aw show ?thesis by simp
qed

text \<open>
  C10. \<^verbatim>\<open>defer\<close> returns \<^verbatim>\<open>undefined\<close> and does not throw, and it does not look at what
  is registered already: a callback registered \<open>k\<close> times is called \<open>k\<close> times, there
  are as many calls as registrations, and the call number \<open>i\<close> is that of the registration
  number \<open>N - 1 - i\<close>.
\<close>

theorem defer_returns_nothing_and_keeps_duplicates:
  assumes "runWithDefer_traced func s = (out, log, s')"
  shows "defer_fn deferredFn l = (Returns (), deferredFn # l)
         \<and> runWithDefer func s = (out, s')
         \<and> length log = length (registered func s)
         \<and> count_list (map fst log) f = count_list (registered func s) f
         \<and> (\<forall>i<length (registered func s).
               fst (log ! i) = registered func s ! (length (registered func s) - Suc i))"
proof -
  note calls = runWithDefer_traced_calls[OF assms]
  from calls have len: "length log = length (registered func s)"
    by (metis length_map length_rev)
  from calls have cnt: "count_list (map fst log) f = count_list (registered func s) f"
    by simp
  have nth: "fst (log ! i) = registered func s ! (length (registered func s) - Suc i)"
    if "i < length (registered func s)" for i
  proof -
    from that len have "fst (log ! i) = map fst log ! i" by simp
    also from calls have "\<dots> = rev (registered func s) ! i" by simp
    also from that have "\<dots> = registered func s ! (length (registered func s) - Suc i)"
      by (rule rev_nth)
    finally show ?thesis .
  qed
  from len cnt nth runWithDefer_traced_erase[OF assms] show ?thesis by (simp add: defer_fn_def)
qed

text \<open>A handler that registers the same callback twice, with another one in between.\<close>

theorem defer_returns_nothing_and_keeps_duplicates_witness:
  "runWithDefer_traced twice_handler [] =
     (Inr Undefined,
      [(push 7, Returns (Num 1)), (push 8, Returns (Num 2)), (push 7, Returns (Num 3))], [7, 8, 7])
   \<and> runWithDefer twice_handler [] = (Inr Undefined, [7, 8, 7])
   \<and> registered twice_handler [] = [push 7, push 8, push 7]
   \<and> count_list (registered twice_handler []) (push 7) = 2
   \<and> count_list (map fst [(push 7, Returns (Num 1)), (push 8, Returns (Num 2)),
        (push 7, Returns (Num 3))]) (push 7) = 2"
proof -
  let ?log = "[(push 7, Returns (Num 1)), (push 8, Returns (Num 2)), (push 7, Returns (Num 3))]"
  have run: "runWithDefer_traced twice_handler [] = (Inr Undefined, ?log, [7, 8, 7])"
    by (simp add: twice_handler_def runWithDefer_traced_def defer_fn_def push_def)
  have reg: "registered twice_handler [] = [push 7, push 8, push 7]"
    by (simp add: twice_handler_def)
  have "push 8 \<noteq> push 7"
  proof
    assume "push 8 = push 7"
    then have "push 8 [] = push 7 []" by simp
    then show False by (simp add: push_def)
  qed
  then have cnt: "count_list [push 7, push 8, push 7] (push 7) = 2" by simp
  from defer_returns_nothing_and_keeps_duplicates[OF run,
      where f = "push 7" and deferredFn = "push 7" and l = "[]"] run reg cnt
  show ?thesis by simp
qed

end
